theory Spec2Isabelle
  imports Main
begin

section \<open>JavaScript values\<close>

text \<open>
  The values a property of an object can hold, as far as the engine looks at them: it
  only ever tests them for truthiness. Numbers are integers here (no NaN), and
  \<open>JObj\<close> stands for any object reference, such as the \<open>Ember\<close> namespace that
  \<open>Ember.addObserver\<close> returns (\<open>return this\<close>).
\<close>

datatype jsval = JUndefined | JNull | JBool bool | JNum int | JStr string | JObj

fun truthy :: "jsval \<Rightarrow> bool" where
  "truthy JUndefined = False"
| "truthy JNull = False"
| "truthy (JBool b) = b"
| "truthy (JNum n) = (n \<noteq> 0)"
| "truthy (JStr s) = (s \<noteq> [])"
| "truthy JObj = True"

datatype error = TypeError | NoValidatorFound string | PathNotFound string

section \<open>The Error Collection\<close>

text \<open>
  Modelled from the spec: \<open>Ember.ValidationErrors\<close> (the class behind
  \<open>validationErrors\<close>) is not among the sources. The spec describes it as an ordered,
  attribute-keyed container of message sequences with \<open>add\<close>, \<open>remove\<close>,
  \<open>clear\<close> and a total \<open>length\<close>. An association list keeps the order of the keys
  and of the messages.
\<close>

type_synonym errors = "(string \<times> string list) list"

text \<open>Modelled from the spec: \<open>add(attribute, message)\<close> appends the message to the
  attribute's sequence, creating the sequence if absent.\<close>

definition errors_add :: "errors \<Rightarrow> string \<Rightarrow> string \<Rightarrow> errors" where
  "errors_add e a m =
     (case map_of e a of
        None \<Rightarrow> e @ [(a, [m])]
      | Some _ \<Rightarrow> map (\<lambda>(k, ms). if k = a then (k, ms @ [m]) else (k, ms)) e)"

text \<open>Modelled from the spec: \<open>remove(attribute)\<close> clears only that attribute's
  sequence.\<close>

definition errors_remove :: "errors \<Rightarrow> string \<Rightarrow> errors" where
  "errors_remove e a = filter (\<lambda>(k, ms). k \<noteq> a) e"

text \<open>Modelled from the spec: \<open>clear()\<close> empties all sequences.\<close>

definition errors_clear :: "errors \<Rightarrow> errors" where
  "errors_clear e = []"

text \<open>Modelled from the spec: \<open>length\<close> is the total count of messages across all
  attributes.\<close>

definition errors_length :: "errors \<Rightarrow> nat" where
  "errors_length e = sum_list (map (\<lambda>(k, ms). length ms) e)"

text \<open>The message sequence recorded for one attribute (empty when the key is absent).\<close>

definition errors_messages :: "errors \<Rightarrow> string \<Rightarrow> string list" where
  "errors_messages e a = (case map_of e a of None \<Rightarrow> [] | Some ms \<Rightarrow> ms)"

text \<open>The length of the attribute's sequence as a JavaScript value: undefined when
  the attribute has no sequence.\<close>

definition errors_attribute_length :: "errors \<Rightarrow> string \<Rightarrow> jsval" where
  "errors_attribute_length e a =
     (case map_of e a of None \<Rightarrow> JUndefined | Some ms \<Rightarrow> JNum (int (length ms)))"

section \<open>The validated object\<close>

text \<open>
  What the engine and its collaborators do that an outside observer can see, in the
  order in which it happens: the two change notifications of \<open>validationErrors\<close>
  and the mutations of the Error Collection.
\<close>

datatype event =
    PropertyWillChange string
  | PropertyDidChange string
  | ErrorsClear
  | ErrorsRemove string
  | ErrorsAdd string string

text \<open>
  The object the mixin is applied to. \<open>validations\<close> is \<open>None\<close> when the property is
  undefined or null; otherwise it lists the attributes in enumeration order, each with
  its rules in enumeration order (a JavaScript object has each key once). \<open>'o\<close> is
  the type of rule options. \<open>props\<close> holds every other property of the object: the
  attribute values, the \<open>shouldValidate\<close> flags and the \<open>_observer...\<close> slots the
  wiring step writes (\<open>this[k]\<close> reads it, and so does \<open>this.get(k)\<close> where it
  does not raise; for a key with dots, a path, it holds what the path reads).
  \<open>observers\<close> is the object's observer registry in Ember: one entry (observed key,
  method name) per call of \<open>Ember.addObserver\<close>. A leading underscore of the source
  is written \<open>u_\<close>.
\<close>

record 'o obj =
  validations :: "(string \<times> (string \<times> 'o) list) list option"
  validationErrors :: errors
  validateOnValueChange :: bool
  validateOnFocusOut :: bool
  u_didValidateAllOnce :: bool
  props :: "string \<Rightarrow> jsval"
  observers :: "(string \<times> string) list"

section \<open>Validators and the framework\<close>

text \<open>
  Modelled from the spec: \<open>Ember.Validators\<close> is not among the sources. A validator
  exposes \<open>validate(object, attribute, currentValue)\<close>, which calls \<open>add\<close> on the
  object's Error Collection for that attribute once per violated constraint and does
  nothing else. It is given by the messages it adds, which may depend on the whole
  object.
\<close>

type_synonym 'o validator = "'o obj \<Rightarrow> string \<Rightarrow> jsval \<Rightarrow> string list"

text \<open>
  What the engine takes from Ember and from the two absent classes, as parameters:
  \<^item> \<open>getValidator(name, options)\<close> of \<open>Ember.Validators\<close>, which yields a
    validator or fails with the configuration error;
  \<^item> \<open>get_fails\<close>, the keys on which \<open>Ember.get\<close> raises instead of reading (it
    looks the key up in a metadata table that inherits from \<open>Object.prototype\<close>, so
    \<open>hasOwnProperty\<close> and \<open>valueOf\<close> are such keys);
  \<^item> \<open>collection_member\<close>, the members that the collection object has beside the
    sequences (its methods such as \<open>add\<close> and \<open>get\<close>, its count \<open>length\<close>), each
    with what \<open>.length\<close> reads on it: the arity of a method, undefined on a number;
  \<^item> \<open>nested_length\<close>, what the path \<open>validationErrors.<a>.length\<close> reads when
    \<open>a\<close> itself contains a dot and so is a path of several segments.
\<close>

record 'o ember =
  getValidator :: "string \<Rightarrow> 'o \<Rightarrow> error + 'o validator"
  get_fails :: "string \<Rightarrow> bool"
  collection_member :: "string \<Rightarrow> jsval option"
  nested_length :: "errors \<Rightarrow> string \<Rightarrow> error + jsval"

text \<open>\<open>this.get(key)\<close> on the validated object.\<close>

definition object_get :: "'o ember \<Rightarrow> 'o obj \<Rightarrow> string \<Rightarrow> error + jsval" where
  "object_get E s key = (if get_fails E key then Inl TypeError else Inr (props s key))"

text \<open>\<open>get(this, 'validationErrors.' + attribute + '.length')\<close>: the path is resolved
  on the collection object, so it reaches the attribute's sequence only when the
  attribute's name is a single segment that \<open>Ember.get\<close> can read and that is not a
  member of the collection object itself.\<close>

definition errors_path_length :: "'o ember \<Rightarrow> errors \<Rightarrow> string \<Rightarrow> error + jsval" where
  "errors_path_length E e a =
     (if CHR ''.'' \<in> set a then nested_length E e a
      else if get_fails E a then Inl TypeError
      else (case collection_member E a of
              Some v \<Rightarrow> Inr v
            | None \<Rightarrow> Inr (errors_attribute_length e a)))"

definition validator_validate ::
  "'o validator \<Rightarrow> 'o obj \<Rightarrow> string \<Rightarrow> jsval \<Rightarrow> 'o obj \<times> event list" where
  "validator_validate v s a x =
     (let ms = v s a x
      in (s\<lparr>validationErrors := foldl (\<lambda>e m. errors_add e a m) (validationErrors s) ms\<rparr>,
          map (ErrorsAdd a) ms))"

section \<open>The validation engine\<close>

text \<open>The \<open>for (var validationName in attributeValidations)\<close> loop of
  \<open>_validateProperty\<close>, with the whole rule map \<open>all_rules\<close> beside the rules still
  to run. Each iteration calls \<open>attributeValidations.hasOwnProperty\<close>, which is the
  options of a rule, and not callable, when a rule has that name; then it resolves the
  validator and reads the attribute. It stops at the first error.\<close>

fun run_rules ::
  "'o ember \<Rightarrow> string \<Rightarrow> (string \<times> 'o) list \<Rightarrow> (string \<times> 'o) list \<Rightarrow> 'o obj \<Rightarrow>
     error + ('o obj \<times> event list)" where
  "run_rules E a all_rules [] s = Inr (s, [])"
| "run_rules E a all_rules ((validationName, options) # rs) s =
     (if map_of all_rules ''hasOwnProperty'' \<noteq> None then Inl TypeError
      else
        (case getValidator E validationName options of
           Inl e \<Rightarrow> Inl e
         | Inr validator \<Rightarrow>
             (case object_get E s a of
                Inl e \<Rightarrow> Inl e
              | Inr x \<Rightarrow>
                  (case validator_validate validator s a x of
                     (s1, ev1) \<Rightarrow>
                       (case run_rules E a all_rules rs s1 of
                          Inl e \<Rightarrow> Inl e
                        | Inr (s2, ev2) \<Rightarrow> Inr (s2, ev1 @ ev2))))))"

text \<open>\<open>validations[attribute]\<close> enumerated: no rule when the attribute has no entry
  (\<open>for ... in undefined\<close> does not iterate).\<close>

definition attributeValidations :: "(string \<times> (string \<times> 'o) list) list \<Rightarrow> string \<Rightarrow> (string \<times> 'o) list" where
  "attributeValidations vs a = (case map_of vs a of None \<Rightarrow> [] | Some rs \<Rightarrow> rs)"

text \<open>\<open>_validateProperty\<close>: the result is the returned boolean, the object afterwards
  and the events in order. Reading \<open>validations[attribute]\<close> from an undefined
  \<open>validations\<close> raises a TypeError.\<close>

definition u_validateProperty ::
  "'o ember \<Rightarrow> string \<Rightarrow> 'o obj \<Rightarrow> error + (bool \<times> 'o obj \<times> event list)" where
  "u_validateProperty E a s =
     (let s0 = s\<lparr>validationErrors := errors_remove (validationErrors s) a\<rparr>
      in case validations s of
           None \<Rightarrow> Inl TypeError
         | Some vs \<Rightarrow>
             (case run_rules E a (attributeValidations vs a) (attributeValidations vs a) s0 of
                Inl e \<Rightarrow> Inl e
              | Inr (s1, ev) \<Rightarrow>
                  (case errors_path_length E (validationErrors s1) a of
                     Inl e \<Rightarrow> Inl e
                   | Inr len \<Rightarrow> Inr (\<not> truthy len, s1, ErrorsRemove a # ev))))"

definition validateProperty ::
  "'o ember \<Rightarrow> string \<Rightarrow> 'o obj \<Rightarrow> error + (bool \<times> 'o obj \<times> event list)" where
  "validateProperty E a s =
     (case u_validateProperty E a s of
        Inl e \<Rightarrow> Inl e
      | Inr (isValid, s1, ev) \<Rightarrow>
          Inr (isValid, s1,
               [PropertyWillChange ''validationErrors''] @ ev @
               [PropertyDidChange ''validationErrors'']))"

text \<open>The computed property \<open>isValid\<close>.\<close>

definition isValid :: "'o obj \<Rightarrow> bool" where
  "isValid s = (errors_length (validationErrors s) = 0)"

text \<open>The \<open>for (var attribute in validations)\<close> loop of \<open>validate\<close>, with the whole
  of \<open>validations\<close> beside the attributes still to visit. Each iteration calls
  \<open>validations.hasOwnProperty\<close>, which is the rule map of an attribute, and not
  callable, when an attribute has that name.\<close>

fun validate_loop ::
  "'o ember \<Rightarrow> (string \<times> (string \<times> 'o) list) list \<Rightarrow> string list \<Rightarrow> 'o obj \<Rightarrow>
     error + ('o obj \<times> event list)" where
  "validate_loop E vs [] s = Inr (s, [])"
| "validate_loop E vs (a # as) s =
     (if map_of vs ''hasOwnProperty'' \<noteq> None then Inl TypeError
      else
        (case u_validateProperty E a s of
           Inl e \<Rightarrow> Inl e
         | Inr (b, s1, ev1) \<Rightarrow>
             (case validate_loop E vs as s1 of
                Inl e \<Rightarrow> Inl e
              | Inr (s2, ev2) \<Rightarrow> Inr (s2, ev1 @ ev2))))"

definition attributes :: "'o obj \<Rightarrow> string list" where
  "attributes s = (case validations s of None \<Rightarrow> [] | Some vs \<Rightarrow> map fst vs)"

definition validate ::
  "'o ember \<Rightarrow> 'o obj \<Rightarrow> error + (bool \<times> 'o obj \<times> event list)" where
  "validate E s =
     (let s0 = s\<lparr>u_didValidateAllOnce := True\<rparr>;
          s1 = s0\<lparr>validationErrors := errors_clear (validationErrors s0)\<rparr>
      in case validate_loop E (case validations s1 of None \<Rightarrow> [] | Some vs \<Rightarrow> vs)
                (attributes s1) s1 of
           Inl e \<Rightarrow> Inl e
         | Inr (s2, ev) \<Rightarrow>
             Inr (isValid s2, s2,
                  [PropertyWillChange ''validationErrors'', ErrorsClear] @ ev @
                  [PropertyDidChange ''validationErrors'']))"

section \<open>Auto-validation wiring\<close>

text \<open>
  \<open>Ember.addObserver(obj, key, target, method)\<close> belongs to the framework: it
  registers the observer and returns the \<open>Ember\<close> namespace (\<open>return this\<close>), a
  truthy value. The registry keeps one entry per call, so a second registration of the
  same observer would show as a second entry.
\<close>

definition addObserver :: "'o obj \<Rightarrow> string \<Rightarrow> string \<Rightarrow> jsval \<times> 'o obj" where
  "addObserver s key method = (JObj, s\<lparr>observers := observers s @ [(key, method)]\<rparr>)"

text \<open>The value-change half of the loop body of \<open>_setupAutoValidateObserves\<close>.\<close>

definition wire_value_change :: "'o obj \<Rightarrow> string \<Rightarrow> 'o obj" where
  "wire_value_change s property =
     (if validateOnValueChange s then
        (let observerKey = ''_observer'' @ property @ ''_value_change''
         in if \<not> truthy (props s observerKey) then
              (case addObserver s property ''_onValueChangeValidateAttribute'' of
                 (r, s1) \<Rightarrow> s1\<lparr>props := (props s1)(observerKey := r)\<rparr>)
            else s)
      else s)"

text \<open>The focus-out half of the loop body.\<close>

definition wire_focus_out :: "'o obj \<Rightarrow> string \<Rightarrow> 'o obj" where
  "wire_focus_out s property =
     (if validateOnFocusOut s then
        (let key = property @ ''shouldValidate'';
             observerKey = ''_observer'' @ property @ ''_focus_out''
         in if \<not> truthy (props s observerKey) then
              (case addObserver s key ''_onFocusOutValidateAttribute'' of
                 (r, s1) \<Rightarrow> s1\<lparr>props := (props s1)(observerKey := r)\<rparr>)
            else s)
      else s)"

definition wire_property :: "'o obj \<Rightarrow> string \<Rightarrow> 'o obj" where
  "wire_property s property = wire_focus_out (wire_value_change s property) property"

text \<open>\<open>_setupAutoValidateObserves\<close>: the \<open>for (property in validations)\<close> loop. It
  runs in \<open>init\<close> and, as an observer of \<open>validations\<close>, whenever \<open>validations\<close>
  is assigned.\<close>

definition u_setupAutoValidateObserves :: "'o obj \<Rightarrow> 'o obj" where
  "u_setupAutoValidateObserves s = foldl wire_property s (attributes s)"

definition init :: "'o obj \<Rightarrow> 'o obj" where
  "init s = u_setupAutoValidateObserves s"

definition set_validations ::
  "'o obj \<Rightarrow> (string \<times> (string \<times> 'o) list) list option \<Rightarrow> 'o obj" where
  "set_validations s vs = u_setupAutoValidateObserves (s\<lparr>validations := vs\<rparr>)"

section \<open>The two observers\<close>

text \<open>\<open>String.prototype.replace\<close> with a string pattern: only the first occurrence
  of the pattern is replaced.\<close>

fun replace_first :: "string \<Rightarrow> string \<Rightarrow> string \<Rightarrow> string" where
  "replace_first pat rep [] = (if pat = [] then rep else [])"
| "replace_first pat rep (c # cs) =
     (if take (length pat) (c # cs) = pat then rep @ drop (length pat) (c # cs)
      else c # replace_first pat rep cs)"

definition u_onValueChangeValidateAttribute ::
  "'o ember \<Rightarrow> string \<Rightarrow> 'o obj \<Rightarrow> error + ('o obj \<times> event list)" where
  "u_onValueChangeValidateAttribute E property s =
     (let shouldValidatePath = property @ ''shouldValidate''
      in case object_get E s shouldValidatePath of
           Inl e \<Rightarrow> Inl e
         | Inr flag \<Rightarrow>
             if truthy flag \<or> u_didValidateAllOnce s then
               (case validateProperty E property s of
                  Inl e \<Rightarrow> Inl e
                | Inr (b, s1, ev) \<Rightarrow> Inr (s1, ev))
             else Inr (s, []))"

text \<open>The attribute the focus-out observer re-validates, computed from the observed
  key.\<close>

definition focus_out_property :: "string \<Rightarrow> string" where
  "focus_out_property shouldValidatePath = replace_first ''shouldValidate'' [] shouldValidatePath"

definition u_onFocusOutValidateAttribute ::
  "'o ember \<Rightarrow> string \<Rightarrow> 'o obj \<Rightarrow> error + ('o obj \<times> event list)" where
  "u_onFocusOutValidateAttribute E shouldValidatePath s =
     (let property = focus_out_property shouldValidatePath
      in case object_get E s shouldValidatePath of
           Inl e \<Rightarrow> Inl e
         | Inr flag \<Rightarrow>
             if truthy flag \<or> u_didValidateAllOnce s then
               (case validateProperty E property s of
                  Inl e \<Rightarrow> Inl e
                | Inr (b, s1, ev) \<Rightarrow> Inr (s1, ev))
             else Inr (s, []))"

text \<open>
  The framework's part of a property change: every observer registered on the changed
  key is called, in registration order, with the key as its second argument. Methods
  other than the engine's two do not touch what is modelled here.
\<close>

definition call_observer ::
  "'o ember \<Rightarrow> string \<Rightarrow> string \<Rightarrow> 'o obj \<Rightarrow> error + ('o obj \<times> event list)" where
  "call_observer E method key s =
     (if method = ''_onValueChangeValidateAttribute'' then u_onValueChangeValidateAttribute E key s
      else if method = ''_onFocusOutValidateAttribute'' then u_onFocusOutValidateAttribute E key s
      else Inr (s, []))"

fun notify_observers ::
  "'o ember \<Rightarrow> (string \<times> string) list \<Rightarrow> string \<Rightarrow> 'o obj \<Rightarrow> error + ('o obj \<times> event list)" where
  "notify_observers E [] key s = Inr (s, [])"
| "notify_observers E ((k, method) # os) key s =
     (if k = key then
        (case call_observer E method key s of
           Inl e \<Rightarrow> Inl e
         | Inr (s1, ev1) \<Rightarrow>
             (case notify_observers E os key s1 of
                Inl e \<Rightarrow> Inl e
              | Inr (s2, ev2) \<Rightarrow> Inr (s2, ev1 @ ev2)))
      else notify_observers E os key s)"

text \<open>A change of the property \<open>key\<close> to the value \<open>v\<close>: the value is stored, then
  the observers of \<open>key\<close> run.\<close>

definition change_property ::
  "'o ember \<Rightarrow> string \<Rightarrow> jsval \<Rightarrow> 'o obj \<Rightarrow> error + ('o obj \<times> event list)" where
  "change_property E key v s =
     notify_observers E (observers s) key (s\<lparr>props := (props s)(key := v)\<rparr>)"

section \<open>Touch tracking in the input widgets\<close>

text \<open>
  A control view as reopened by the second source file. \<open>valueBinding\<close> and
  \<open>checkedBinding\<close> hold the binding's \<open>_from\<close> path when the binding exists.
  \<open>own\<close> holds the widget's other properties, and \<open>reachable\<close> the property
  stores of the objects that a path from the widget resolves to.
\<close>

record widget =
  u_didFocusIn :: bool
  u_didFocusOut :: bool
  valueBinding :: "string option"
  checkedBinding :: "string option"
  own :: "string \<Rightarrow> jsval"
  reachable :: "string \<rightharpoonup> (string \<Rightarrow> jsval)"

text \<open>A property path splits at its last dot into the path of the object and the key
  on that object; a path without a dot names a property of the widget itself.\<close>

definition split_path :: "string \<Rightarrow> string option \<times> string" where
  "split_path path =
     (let key = rev (takeWhile (\<lambda>c. c \<noteq> CHR ''.'') (rev path))
      in if CHR ''.'' \<in> set path
         then (Some (take (length path - length key - 1) path), key)
         else (None, key))"

text \<open>\<open>this.set(path, v)\<close> on the widget, as the framework resolves it: the value is
  stored on the object the path leads to, and the call fails when that object does not
  exist.\<close>

definition widget_set :: "widget \<Rightarrow> string \<Rightarrow> jsval \<Rightarrow> error + widget" where
  "widget_set w path v =
     (case split_path path of
        (None, key) \<Rightarrow> Inr (w\<lparr>own := (own w)(key := v)\<rparr>)
      | (Some objectPath, key) \<Rightarrow>
          (case reachable w objectPath of
             None \<Rightarrow> Inl (PathNotFound objectPath)
           | Some store \<Rightarrow> Inr (w\<lparr>reachable := (reachable w)(objectPath \<mapsto> store(key := v))\<rparr>)))"

text \<open>\<open>_setupShouldValidate\<close>, the observer of the two focus flags. Without a binding
  \<open>property\<close> is undefined, and the concatenation yields \<open>undefinedshouldValidate\<close>.\<close>

definition u_setupShouldValidate :: "widget \<Rightarrow> error + widget" where
  "u_setupShouldValidate w =
     (if \<not> u_didFocusIn w \<or> \<not> u_didFocusOut w then Inr w
      else
        (let binding = (case valueBinding w of Some b \<Rightarrow> Some b | None \<Rightarrow> checkedBinding w);
             property = (case binding of None \<Rightarrow> ''undefined'' | Some from \<Rightarrow> from)
         in widget_set w (property @ ''shouldValidate'') (JBool True)))"

text \<open>\<open>focusIn\<close> and \<open>focusOut\<close> set their flag. \<open>_setupShouldValidate\<close> observes
  the two flags, so it runs when the flag changes, and not when the flag was set
  already.\<close>

definition focusIn :: "widget \<Rightarrow> error + widget" where
  "focusIn w =
     (if u_didFocusIn w then Inr w
      else u_setupShouldValidate (w\<lparr>u_didFocusIn := True\<rparr>))"

definition focusOut :: "widget \<Rightarrow> error + widget" where
  "focusOut w =
     (if u_didFocusOut w then Inr w
      else u_setupShouldValidate (w\<lparr>u_didFocusOut := True\<rparr>))"

section \<open>Notions used in the statements\<close>

subsection \<open>Reading the events\<close>

fun is_notification :: "event \<Rightarrow> bool" where
  "is_notification (PropertyWillChange k) = True"
| "is_notification (PropertyDidChange k) = True"
| "is_notification x = False"

text \<open>The effect of one event on the Error Collection; a notification has none.\<close>

fun apply_event :: "errors \<Rightarrow> event \<Rightarrow> errors" where
  "apply_event e ErrorsClear = errors_clear e"
| "apply_event e (ErrorsRemove a) = errors_remove e a"
| "apply_event e (ErrorsAdd a m) = errors_add e a m"
| "apply_event e (PropertyWillChange k) = e"
| "apply_event e (PropertyDidChange k) = e"

text \<open>The attributes whose re-validation the events record: every run of
  \<open>_validateProperty\<close> starts with the removal of the attribute's entry.\<close>

fun revalidated :: "event list \<Rightarrow> string list" where
  "revalidated [] = []"
| "revalidated (ErrorsRemove a # ev) = a # revalidated ev"
| "revalidated (x # ev) = revalidated ev"

text \<open>The events of an observer call or a property change; none when it raised.\<close>

definition triggered_events :: "error + ('o obj \<times> event list) \<Rightarrow> event list" where
  "triggered_events r = (case r of Inl e \<Rightarrow> [] | Inr (s, ev) \<Rightarrow> ev)"

subsection \<open>What the rules say\<close>

text \<open>The rules that \<open>validations\<close> configures for the attribute \<open>a\<close>.\<close>

definition configured_rules :: "'o obj \<Rightarrow> string \<Rightarrow> (string \<times> 'o) list" where
  "configured_rules s a =
     (case validations s of
        None \<Rightarrow> []
      | Some vs \<Rightarrow> (case map_of vs a of None \<Rightarrow> [] | Some rs \<Rightarrow> rs))"

text \<open>The messages that the validators of the rules \<open>rs\<close> record for the attribute
  \<open>a\<close> of the object \<open>s\<close>, rule after rule, each validator seeing the messages of
  the rules before it.\<close>

fun rule_messages :: "'o ember \<Rightarrow> 'o obj \<Rightarrow> string \<Rightarrow> (string \<times> 'o) list \<Rightarrow> string list" where
  "rule_messages E s a [] = []"
| "rule_messages E s a ((n, opts) # rs) =
     (case getValidator E n opts of
        Inl e \<Rightarrow> []
      | Inr v \<Rightarrow>
          (let ms = v s a (props s a)
           in ms @ rule_messages E
                     (s\<lparr>validationErrors :=
                          foldl (\<lambda>e m. errors_add e a m) (validationErrors s) ms\<rparr>) a rs))"

text \<open>The object after the attribute \<open>a\<close> has been re-validated: its old entry is
  gone and the messages of its rules are recorded.\<close>

definition revalidate_attribute :: "'o ember \<Rightarrow> 'o obj \<Rightarrow> string \<Rightarrow> 'o obj" where
  "revalidate_attribute E s a =
     (let s0 = s\<lparr>validationErrors := errors_remove (validationErrors s) a\<rparr>
      in s0\<lparr>validationErrors :=
              foldl (\<lambda>e m. errors_add e a m) (validationErrors s0)
                (rule_messages E s0 a (configured_rules s a))\<rparr>)"

text \<open>The Error Collection after the attributes of the list have been re-validated in
  order.\<close>

definition expected_collection :: "'o ember \<Rightarrow> 'o obj \<Rightarrow> string list \<Rightarrow> errors" where
  "expected_collection E s as = validationErrors (foldl (revalidate_attribute E) s as)"


subsection \<open>Counting observers\<close>

text \<open>The number of value-change observers, and of focus-out observers, that the
  registry holds for the attribute \<open>p\<close>.\<close>

definition value_change_observers :: "'o obj \<Rightarrow> string \<Rightarrow> nat" where
  "value_change_observers s p = count_list (observers s) (p, ''_onValueChangeValidateAttribute'')"

definition focus_out_observers :: "'o obj \<Rightarrow> string \<Rightarrow> nat" where
  "focus_out_observers s p =
     count_list (observers s) (p @ ''shouldValidate'', ''_onFocusOutValidateAttribute'')"


text \<open>The invariant of the wiring step: no observer is registered twice, and none is
  registered while its slot on the object is still falsy.\<close>

definition wired_once :: "'o obj \<Rightarrow> bool" where
  "wired_once s =
     (\<forall>p. value_change_observers s p \<le> 1 \<and>
          (\<not> truthy (props s (''_observer'' @ p @ ''_value_change'')) \<longrightarrow>
             value_change_observers s p = 0) \<and>
          focus_out_observers s p \<le> 1 \<and>
          (\<not> truthy (props s (''_observer'' @ p @ ''_focus_out'')) \<longrightarrow>
             focus_out_observers s p = 0))"



definition focus_out_slot_registered :: "string \<Rightarrow> 'o obj \<Rightarrow> bool" where
  "focus_out_slot_registered p s =
     (truthy (props s (''_observer'' @ p @ ''_focus_out'')) \<longrightarrow>
        (p @ ''shouldValidate'', ''_onFocusOutValidateAttribute'') \<in> set (observers s))"

subsection \<open>Widgets\<close>

text \<open>\<open>this.valueBinding || this.checkedBinding\<close>, as the path the binding reads
  from.\<close>

definition binding_from :: "widget \<Rightarrow> string option" where
  "binding_from w = (case valueBinding w of Some b \<Rightarrow> Some b | None \<Rightarrow> checkedBinding w)"

text \<open>One focus event after another; an error of the first ends the sequence.\<close>

definition then_focusOut :: "error + widget \<Rightarrow> error + widget" where
  "then_focusOut r = (case r of Inl e \<Rightarrow> Inl e | Inr w \<Rightarrow> focusOut w)"

definition then_focusIn :: "error + widget \<Rightarrow> error + widget" where
  "then_focusIn r = (case r of Inl e \<Rightarrow> Inl e | Inr w \<Rightarrow> focusIn w)"

subsection \<open>Example objects\<close>

text \<open>A presence validator in the manner of the documentation's example.\<close>

definition presence :: "'o validator" where
  "presence s a x = (if truthy x then [] else [''can not be blank''])"

text \<open>A framework for the examples: it knows the rule \<open>presence\<close> only,
  \<open>Ember.get\<close> raises on the names of \<open>Object.prototype\<close>, and the collection object
  has the methods and the count that the spec lists beside \<open>get\<close> and \<open>set\<close>.\<close>

definition example_ember :: "bool ember" where
  "example_ember =
     \<lparr>getValidator =
        (\<lambda>n opts. if n = ''presence'' then Inr presence else Inl (NoValidatorFound n)),
      get_fails =
        (\<lambda>k. k \<in> set [''constructor'', ''hasOwnProperty'', ''isPrototypeOf'',
                       ''propertyIsEnumerable'', ''toLocaleString'', ''toString'',
                       ''valueOf'']),
      collection_member =
        map_of [(''add'', JNum 2), (''remove'', JNum 1), (''clear'', JNum 0),
                (''length'', JUndefined), (''get'', JNum 1), (''set'', JNum 2)],
      nested_length = (\<lambda>e a. Inr JUndefined)\<rparr>"

text \<open>An object with the rule \<open>name: {presence: true}\<close>, an attribute \<open>age\<close> without
  rules, no attribute values yet and errors left from earlier.\<close>

definition example_obj :: "bool obj" where
  "example_obj =
     \<lparr>validations = Some [(''name'', [(''presence'', True)]), (''age'', [])],
      validationErrors = [(''name'', [''stale'']), (''age'', [''too young''])],
      validateOnValueChange = True,
      validateOnFocusOut = True,
      u_didValidateAllOnce = False,
      props = (\<lambda>k. JUndefined),
      observers = []\<rparr>"

text \<open>What \<open>validate()\<close> makes of it.\<close>

definition example_validated :: "bool obj" where
  "example_validated =
     example_obj\<lparr>validationErrors := [(''name'', [''can not be blank''])],
                 u_didValidateAllOnce := True\<rparr>"

definition example_validate_events :: "event list" where
  "example_validate_events =
     [PropertyWillChange ''validationErrors'', ErrorsClear,
      ErrorsRemove ''name'', ErrorsAdd ''name'' ''can not be blank'',
      ErrorsRemove ''age'', PropertyDidChange ''validationErrors'']"


text \<open>An object whose only attribute has a name that contains \<open>shouldValidate\<close>.\<close>

definition prefixed_obj :: "bool obj" where
  "prefixed_obj =
     \<lparr>validations = Some [(''shouldValidateName'', [(''presence'', True)])],
      validationErrors = [],
      validateOnValueChange = False,
      validateOnFocusOut = True,
      u_didValidateAllOnce = False,
      props = (\<lambda>k. JUndefined),
      observers = []\<rparr>"


text \<open>The example object with the observer slot of \<open>name\<close> already taken at
  creation.\<close>

definition slot_taken_obj :: "bool obj" where
  "slot_taken_obj =
     example_obj\<lparr>props := (\<lambda>k. if k = ''_observername_value_change'' then JBool True
                                else JUndefined)\<rparr>"

text \<open>A text field bound to \<open>content.name\<close> that the user has not entered yet.\<close>

definition example_widget :: widget where
  "example_widget =
     \<lparr>u_didFocusIn = False,
      u_didFocusOut = False,
      valueBinding = Some ''content.name'',
      checkedBinding = None,
      own = (\<lambda>k. JUndefined),
      reachable = [''content'' \<mapsto> (\<lambda>k. JUndefined)]\<rparr>"

section \<open>Facts about the Error Collection and the rule loop\<close>

lemma map_of_map_append_message:
  "map_of (map (\<lambda>(k, ms). if k = a then (k, ms @ [m]) else (k, ms)) e) b =
     (if b = a then map_option (\<lambda>ms. ms @ [m]) (map_of e a) else map_of e b)"
  by (induction e) auto

lemma map_of_errors_add_other: "b \<noteq> a \<Longrightarrow> map_of (errors_add e a m) b = map_of e b"
  by (cases "map_of e a")
    (simp_all add: errors_add_def map_of_map_append_message map_add_def split: option.split)

lemma map_of_errors_add_same:
  "map_of (errors_add e a m) a = Some (errors_messages e a @ [m])"
  by (cases "map_of e a")
    (simp_all add: errors_add_def errors_messages_def map_of_map_append_message map_add_def)

lemma errors_messages_add:
  "errors_messages (errors_add e a m) b = (if b = a then errors_messages e a @ [m] else errors_messages e b)"
  by (simp add: errors_messages_def map_of_errors_add_other map_of_errors_add_same)

lemma filter_map_append_message:
  "filter (\<lambda>(k, ms). k \<noteq> a) (map (\<lambda>(k, ms). if k = a then (k, ms @ [m]) else (k, ms)) e) =
     filter (\<lambda>(k, ms). k \<noteq> a) e"
  by (induction e) auto

lemma filter_errors_add:
  "filter (\<lambda>(k, ms). k \<noteq> a) (errors_add e a m) = filter (\<lambda>(k, ms). k \<noteq> a) e"
  by (cases "map_of e a") (simp_all add: errors_add_def filter_map_append_message)


lemma filter_foldl_add:
  "filter (\<lambda>(k, ms). k \<noteq> a) (foldl (\<lambda>e m. errors_add e a m) e ms) = filter (\<lambda>(k, ms). k \<noteq> a) e"
  by (induction ms arbitrary: e) (simp_all add: filter_errors_add)

lemma map_of_errors_remove:
  "map_of (errors_remove e a) b = (if b = a then None else map_of e b)"
  by (induction e) (auto simp: errors_remove_def)


lemma map_of_foldl_add:
  "map_of (foldl (\<lambda>e m. errors_add e a m) e ms) a =
     (if ms = [] then map_of e a else Some (errors_messages e a @ ms))"
proof (induction ms arbitrary: e)
  case Nil
  then show ?case by simp
next
  case (Cons m ms)
  show ?case
    by (simp add: Cons.IH map_of_errors_add_same errors_messages_add errors_messages_def)
qed

lemma run_rules_Cons_Inr:
  assumes "run_rules E a all_rules ((n, opts) # rs) s = Inr (s', ev)"
  obtains v ev2 where
    "map_of all_rules ''hasOwnProperty'' = None"
    "getValidator E n opts = Inr v"
    "\<not> get_fails E a"
    "run_rules E a all_rules rs
       (s\<lparr>validationErrors :=
            foldl (\<lambda>e m. errors_add e a m) (validationErrors s) (v s a (props s a))\<rparr>) =
       Inr (s', ev2)"
    "ev = map (ErrorsAdd a) (v s a (props s a)) @ ev2"
proof -
  have h: "map_of all_rules ''hasOwnProperty'' = None"
    using assms by (cases "map_of all_rules ''hasOwnProperty''") simp_all
  obtain v where v: "getValidator E n opts = Inr v"
    using assms h by (cases "getValidator E n opts") simp_all
  have g: "\<not> get_fails E a"
    using assms h v by (cases "get_fails E a") (simp_all add: object_get_def)
  define s1 where "s1 = s\<lparr>validationErrors :=
            foldl (\<lambda>e m. errors_add e a m) (validationErrors s) (v s a (props s a))\<rparr>"
  have step: "run_rules E a all_rules ((n, opts) # rs) s =
      (case run_rules E a all_rules rs s1 of Inl e \<Rightarrow> Inl e
       | Inr (s2, ev2) \<Rightarrow> Inr (s2, map (ErrorsAdd a) (v s a (props s a)) @ ev2))"
    unfolding s1_def by (simp add: h v g object_get_def validator_validate_def Let_def)
  show ?thesis
  proof (cases "run_rules E a all_rules rs s1")
    case (Inl e)
    then show ?thesis using assms step by simp
  next
    case (Inr p)
    obtain s2 ev2 where p: "p = (s2, ev2)" by (cases p)
    have "s2 = s'" "ev = map (ErrorsAdd a) (v s a (props s a)) @ ev2"
      using assms step Inr p by simp_all
    then show ?thesis using that [OF h v g, of ev2] Inr p by (simp add: s1_def)
  qed
qed

lemma run_rules_Inr:
  "run_rules E a all_rules rs s = Inr (s', ev) \<Longrightarrow>
     ev = map (ErrorsAdd a) (rule_messages E s a rs) \<and>
     s' = s\<lparr>validationErrors :=
             foldl (\<lambda>e m. errors_add e a m) (validationErrors s) (rule_messages E s a rs)\<rparr>"
proof (induction rs arbitrary: s s' ev)
  case Nil
  then show ?case by simp
next
  case (Cons r rs)
  obtain n opts where r: "r = (n, opts)" by (cases r)
  from Cons.prems [unfolded r] obtain v ev2 where
    v: "getValidator E n opts = Inr v" and
    rec: "run_rules E a all_rules rs
       (s\<lparr>validationErrors :=
            foldl (\<lambda>e m. errors_add e a m) (validationErrors s) (v s a (props s a))\<rparr>) =
       Inr (s', ev2)" and
    ev: "ev = map (ErrorsAdd a) (v s a (props s a)) @ ev2"
    by (rule run_rules_Cons_Inr)
  define ms1 where "ms1 = v s a (props s a)"
  define s1 where "s1 = s\<lparr>validationErrors :=
            foldl (\<lambda>e m. errors_add e a m) (validationErrors s) ms1\<rparr>"
  define ms2 where "ms2 = rule_messages E s1 a rs"
  have rm: "rule_messages E s a (r # rs) = ms1 @ ms2"
    by (simp add: r v Let_def ms1_def ms2_def s1_def)
  from Cons.IH [OF rec [folded ms1_def, folded s1_def]] have
    ev2: "ev2 = map (ErrorsAdd a) ms2" and
    s': "s' = s1\<lparr>validationErrors := foldl (\<lambda>e m. errors_add e a m) (validationErrors s1) ms2\<rparr>"
    by (simp_all add: ms2_def)
  have "ev = map (ErrorsAdd a) (ms1 @ ms2)" using ev ev2 by (simp add: ms1_def)
  moreover have "s' = s\<lparr>validationErrors :=
      foldl (\<lambda>e m. errors_add e a m) (validationErrors s) (ms1 @ ms2)\<rparr>"
    unfolding s' by (simp add: s1_def)
  ultimately show ?case unfolding rm by (intro conjI)
qed

lemma configured_rules_Some:
  "validations s = Some vs \<Longrightarrow> attributeValidations vs a = configured_rules s a"
  by (simp add: attributeValidations_def configured_rules_def)

lemma u_validateProperty_None:
  "validations s = None \<Longrightarrow> u_validateProperty E a s = Inl TypeError"
  by (simp add: u_validateProperty_def Let_def)

lemma u_validateProperty_Inr:
  assumes "u_validateProperty E a s = Inr (b, s', ev)"
  obtains len where
    "ev = ErrorsRemove a # map (ErrorsAdd a)
            (rule_messages E (s\<lparr>validationErrors := errors_remove (validationErrors s) a\<rparr>)
               a (configured_rules s a))"
    "s' = s\<lparr>validationErrors :=
             foldl (\<lambda>e m. errors_add e a m) (errors_remove (validationErrors s) a)
               (rule_messages E (s\<lparr>validationErrors := errors_remove (validationErrors s) a\<rparr>)
                  a (configured_rules s a))\<rparr>"
    "errors_path_length E (validationErrors s') a = Inr len"
    "b = (\<not> truthy len)"
proof -
  obtain vs where vs: "validations s = Some vs"
    using assms by (cases "validations s") (simp_all add: u_validateProperty_None)
  define s0 where "s0 = s\<lparr>validationErrors := errors_remove (validationErrors s) a\<rparr>"
  define rs where "rs = configured_rules s a"
  have step: "u_validateProperty E a s =
      (case run_rules E a rs rs s0 of
         Inl e \<Rightarrow> Inl e
       | Inr (s1, ev) \<Rightarrow>
           (case errors_path_length E (validationErrors s1) a of
              Inl e \<Rightarrow> Inl e
            | Inr len \<Rightarrow> Inr (\<not> truthy len, s1, ErrorsRemove a # ev)))"
    unfolding s0_def rs_def configured_rules_Some [OF vs, symmetric]
    by (simp add: u_validateProperty_def Let_def vs)
  obtain s1 ev1 where run: "run_rules E a rs rs s0 = Inr (s1, ev1)"
  proof (cases "run_rules E a rs rs s0")
    case (Inl e)
    then show ?thesis using assms step by simp
  next
    case (Inr p)
    then show ?thesis using that by (cases p) simp
  qed
  obtain len where len: "errors_path_length E (validationErrors s1) a = Inr len"
    using assms step run by (cases "errors_path_length E (validationErrors s1) a") simp_all
  have res: "b = (\<not> truthy len)" "s' = s1" "ev = ErrorsRemove a # ev1"
    using assms step run len by simp_all
  define ms where "ms = rule_messages E s0 a rs"
  from run_rules_Inr [OF run] have
    ev1: "ev1 = map (ErrorsAdd a) ms" and
    s1: "s1 = s0\<lparr>validationErrors := foldl (\<lambda>e m. errors_add e a m) (validationErrors s0) ms\<rparr>"
    by (simp_all add: ms_def)
  have s'eq: "s' = s\<lparr>validationErrors :=
      foldl (\<lambda>e m. errors_add e a m) (errors_remove (validationErrors s) a) ms\<rparr>"
    unfolding res(2) s1 by (simp add: s0_def)
  have eveq: "ev = ErrorsRemove a # map (ErrorsAdd a) ms"
    using res(3) ev1 by simp
  have leneq: "errors_path_length E (validationErrors s') a = Inr len"
    using len res(2) by simp
  show ?thesis
    by (rule that [OF eveq [unfolded ms_def s0_def rs_def] s'eq [unfolded ms_def s0_def rs_def]
          leneq res(1)])
qed



section \<open>The engine on example objects\<close>

lemma example_validateProperty:
  "validateProperty example_ember ''name'' example_obj =
     Inr (False,
          example_obj\<lparr>validationErrors := [(''age'', [''too young'']), (''name'', [''can not be blank''])]\<rparr>,
          [PropertyWillChange ''validationErrors'', ErrorsRemove ''name'',
           ErrorsAdd ''name'' ''can not be blank'', PropertyDidChange ''validationErrors''])"
  by (simp add: validateProperty_def Let_def u_validateProperty_def object_get_def
      errors_path_length_def attributeValidations_def validator_validate_def presence_def
      errors_attribute_length_def errors_add_def errors_remove_def
      example_obj_def example_ember_def)

lemma example_validate:
  "validate example_ember example_obj = Inr (False, example_validated, example_validate_events)"
  by (simp add: validate_def Let_def u_validateProperty_def attributes_def object_get_def
      errors_path_length_def attributeValidations_def validator_validate_def presence_def
      isValid_def errors_length_def errors_attribute_length_def errors_add_def
      errors_remove_def errors_clear_def example_obj_def example_ember_def
      example_validated_def example_validate_events_def)



section \<open>Validating one attribute\<close>

lemma validateProperty_Inr:
  "validateProperty E a s = Inr (b, s', ev) \<Longrightarrow>
     \<exists>ev1. u_validateProperty E a s = Inr (b, s', ev1) \<and>
           ev = PropertyWillChange ''validationErrors'' # ev1 @ [PropertyDidChange ''validationErrors'']"
  by (cases "u_validateProperty E a s") (auto simp: validateProperty_def)

lemma u_validateProperty_revalidates:
  assumes "u_validateProperty E a s = Inr (b, s', ev)"
  shows "s' = revalidate_attribute E s a"
proof -
  from assms obtain len where
    "s' = s\<lparr>validationErrors :=
             foldl (\<lambda>e m. errors_add e a m) (errors_remove (validationErrors s) a)
               (rule_messages E (s\<lparr>validationErrors := errors_remove (validationErrors s) a\<rparr>)
                  a (configured_rules s a))\<rparr>"
    by (rule u_validateProperty_Inr)
  then show ?thesis by (simp add: revalidate_attribute_def Let_def)
qed




text \<open>
  Claim C9. A call \<open>validateProperty(a)\<close> that returns leaves the message sequence of
  every other attribute as it was, and the entries of the other attributes in their
  order: the only mutations of the Error Collection are the removal of \<open>a\<close>'s entry
  and additions of messages for \<open>a\<close>, inside one notification bracket.
\<close>

theorem validateProperty_frame:
  assumes "validateProperty E a s = Inr (r, s', ev)"
  shows "(\<forall>b. b \<noteq> a \<longrightarrow> map_of (validationErrors s') b = map_of (validationErrors s) b) \<and>
         filter (\<lambda>(k, ms). k \<noteq> a) (validationErrors s') =
           filter (\<lambda>(k, ms). k \<noteq> a) (validationErrors s) \<and>
         (\<exists>ms. ev = [PropertyWillChange ''validationErrors'', ErrorsRemove a] @
                 map (ErrorsAdd a) ms @ [PropertyDidChange ''validationErrors''])"
proof -
  from validateProperty_Inr [OF assms] obtain ev1 where
    u: "u_validateProperty E a s = Inr (r, s', ev1)" and
    ev: "ev = PropertyWillChange ''validationErrors'' # ev1 @ [PropertyDidChange ''validationErrors'']"
    by (elim exE conjE) (rule that)
  define ms where "ms = rule_messages E
      (s\<lparr>validationErrors := errors_remove (validationErrors s) a\<rparr>) a (configured_rules s a)"
  from u obtain len where
    ev1: "ev1 = ErrorsRemove a # map (ErrorsAdd a) ms" and
    s': "s' = s\<lparr>validationErrors :=
             foldl (\<lambda>e m. errors_add e a m) (errors_remove (validationErrors s) a) ms\<rparr>"
    unfolding ms_def by (rule u_validateProperty_Inr)
  have E: "validationErrors s' =
      foldl (\<lambda>e m. errors_add e a m) (errors_remove (validationErrors s) a) ms"
    by (subst s') simp
  have 1: "\<forall>b. b \<noteq> a \<longrightarrow> map_of (validationErrors s') b = map_of (validationErrors s) b"
  proof (intro allI impI)
    fix b :: string assume ba: "b \<noteq> a"
    have "map_of (foldl (\<lambda>e m. errors_add e a m) e0 ms) b = map_of e0 b" for e0
      by (induction ms arbitrary: e0) (simp_all add: map_of_errors_add_other ba)
    then show "map_of (validationErrors s') b = map_of (validationErrors s) b"
      by (simp add: E map_of_errors_remove ba)
  qed
  have 2: "filter (\<lambda>(k, ms). k \<noteq> a) (validationErrors s') =
           filter (\<lambda>(k, ms). k \<noteq> a) (validationErrors s)"
    by (simp add: E filter_foldl_add errors_remove_def)
  have 3: "ev = [PropertyWillChange ''validationErrors'', ErrorsRemove a] @
                 map (ErrorsAdd a) ms @ [PropertyDidChange ''validationErrors'']"
    by (simp add: ev ev1)
  from 1 2 3 show ?thesis by (intro conjI exI [of _ ms])
qed

theorem validateProperty_frame_witness:
  "validateProperty example_ember ''name'' example_obj =
     Inr (False,
          example_obj\<lparr>validationErrors := [(''age'', [''too young'']), (''name'', [''can not be blank''])]\<rparr>,
          [PropertyWillChange ''validationErrors'', ErrorsRemove ''name'',
           ErrorsAdd ''name'' ''can not be blank'', PropertyDidChange ''validationErrors'']) \<and>
   map_of [(''age'', [''too young'']), (''name'', [''can not be blank''])] ''age'' =
     map_of (validationErrors example_obj) ''age''"
  using validateProperty_frame [OF example_validateProperty] example_validateProperty
  by (simp add: example_obj_def)




section \<open>Validating the whole object\<close>

lemma foldl_apply_event_adds:
  "foldl apply_event e (map (ErrorsAdd a) ms) = foldl (\<lambda>e m. errors_add e a m) e ms"
  by (induction ms arbitrary: e) simp_all

lemma no_notification_adds: "list_all (\<lambda>x. \<not> is_notification x) (map (ErrorsAdd a) ms)"
  by (induction ms) simp_all

lemma revalidated_adds: "revalidated (map (ErrorsAdd a) ms) = []"
  by (induction ms) simp_all

lemma revalidated_append: "revalidated (xs @ ys) = revalidated xs @ revalidated ys"
  by (induction xs rule: revalidated.induct) simp_all

lemma validate_loop_Inr:
  "validate_loop E vs as s = Inr (s', ev) \<Longrightarrow>
     s' = s\<lparr>validationErrors := foldl apply_event (validationErrors s) ev\<rparr> \<and>
     list_all (\<lambda>x. \<not> is_notification x) ev \<and> revalidated ev = as \<and>
     s' = foldl (revalidate_attribute E) s as"
proof (induction as arbitrary: s s' ev)
  case Nil
  then show ?case by simp
next
  case (Cons a as)
  have h: "map_of vs ''hasOwnProperty'' = None"
    using Cons.prems by (cases "map_of vs ''hasOwnProperty''") simp_all
  obtain b s1 ev1 where u: "u_validateProperty E a s = Inr (b, s1, ev1)"
  proof (cases "u_validateProperty E a s")
    case (Inl e)
    then show ?thesis using Cons.prems h by simp
  next
    case (Inr p)
    then show ?thesis using that by (cases p) simp
  qed
  obtain ev2 where rec: "validate_loop E vs as s1 = Inr (s', ev2)" and ev: "ev = ev1 @ ev2"
  proof (cases "validate_loop E vs as s1")
    case (Inl e)
    then show ?thesis using Cons.prems h u by simp
  next
    case (Inr p)
    then show ?thesis using Cons.prems h u that by (cases p) simp
  qed
  define ms where "ms = rule_messages E
      (s\<lparr>validationErrors := errors_remove (validationErrors s) a\<rparr>) a (configured_rules s a)"
  from u obtain len where
    ev1: "ev1 = ErrorsRemove a # map (ErrorsAdd a) ms" and
    s1: "s1 = s\<lparr>validationErrors :=
             foldl (\<lambda>e m. errors_add e a m) (errors_remove (validationErrors s) a) ms\<rparr>"
    unfolding ms_def by (rule u_validateProperty_Inr)
  have r1: "s1 = revalidate_attribute E s a"
    using u by (rule u_validateProperty_revalidates)
  have E1: "validationErrors s1 = foldl apply_event (validationErrors s) ev1"
    unfolding s1 ev1 by (simp add: foldl_apply_event_adds)
  note ih = Cons.IH [OF rec]
  have s': "s' = s1\<lparr>validationErrors := foldl apply_event (validationErrors s1) ev2\<rparr>"
    by (rule ih [THEN conjunct1])
  have n2: "list_all (\<lambda>x. \<not> is_notification x) ev2"
    by (rule ih [THEN conjunct2, THEN conjunct1])
  have r2: "revalidated ev2 = as"
    by (rule ih [THEN conjunct2, THEN conjunct2, THEN conjunct1])
  have f2: "s' = foldl (revalidate_attribute E) s1 as"
    by (rule ih [THEN conjunct2, THEN conjunct2, THEN conjunct2])
  have "s' = s\<lparr>validationErrors := foldl apply_event (validationErrors s) ev\<rparr>"
    unfolding s' E1 ev unfolding s1 by simp
  moreover have "list_all (\<lambda>x. \<not> is_notification x) ev"
    using n2 by (simp add: ev ev1 no_notification_adds)
  moreover have "revalidated ev = a # as"
    using r2 by (simp add: ev ev1 revalidated_append revalidated_adds)
  moreover have "s' = foldl (revalidate_attribute E) s (a # as)"
    using f2 r1 by simp
  ultimately show ?case by (intro conjI)
qed

lemma validate_unfold:
  "validate E s =
     (case validate_loop E (case validations s of None \<Rightarrow> [] | Some vs \<Rightarrow> vs) (attributes s)
             (s\<lparr>u_didValidateAllOnce := True, validationErrors := []\<rparr>) of
        Inl e \<Rightarrow> Inl e
      | Inr (s2, ev) \<Rightarrow>
          Inr (isValid s2, s2,
               PropertyWillChange ''validationErrors'' # ErrorsClear # ev @
               [PropertyDidChange ''validationErrors'']))"
  by (simp add: validate_def Let_def errors_clear_def attributes_def split: sum.split prod.split)

lemma validate_Inr:
  assumes "validate E s = Inr (b, s', ev)"
  obtains ops where
    "validate_loop E (case validations s of None \<Rightarrow> [] | Some vs \<Rightarrow> vs) (attributes s)
       (s\<lparr>u_didValidateAllOnce := True, validationErrors := []\<rparr>) = Inr (s', ops)"
    "ev = PropertyWillChange ''validationErrors'' # ErrorsClear # ops @ [PropertyDidChange ''validationErrors'']"
    "b = isValid s'"
proof (cases "validate_loop E (case validations s of None \<Rightarrow> [] | Some vs \<Rightarrow> vs) (attributes s)
       (s\<lparr>u_didValidateAllOnce := True, validationErrors := []\<rparr>)")
  case (Inl e)
  then show ?thesis using assms by (simp add: validate_unfold)
next
  case (Inr p)
  then show ?thesis using assms that by (cases p) (simp add: validate_unfold)
qed

text \<open>
  Claim C1. A call \<open>validate()\<close> that returns has re-validated the attribute keys of
  \<open>validations\<close>, each once and in enumeration order, starting from the cleared
  collection; the Error Collection afterwards is the one that the rules of these
  attributes produce, and the boolean returned is true exactly when its total message
  count is zero, which is the value of \<open>isValid\<close>.
\<close>

theorem validate_returns_isValid:
  assumes "validate E s = Inr (b, s', ev)"
  shows "b = (errors_length (validationErrors s') = 0) \<and>
         b = isValid s' \<and>
         revalidated ev = attributes s \<and>
         validationErrors s' =
           expected_collection E (s\<lparr>u_didValidateAllOnce := True, validationErrors := []\<rparr>)
             (attributes s)"
proof -
  define s1 where "s1 = s\<lparr>u_didValidateAllOnce := True, validationErrors := []\<rparr>"
  from validate_Inr [OF assms] obtain ops where
    loop: "validate_loop E (case validations s of None \<Rightarrow> [] | Some vs \<Rightarrow> vs) (attributes s) s1 =
      Inr (s', ops)" and
    ev: "ev = PropertyWillChange ''validationErrors'' # ErrorsClear # ops @ [PropertyDidChange ''validationErrors'']" and
    b: "b = isValid s'"
    unfolding s1_def by blast
  note l = validate_loop_Inr [OF loop]
  have r: "revalidated ops = attributes s"
    by (rule l [THEN conjunct2, THEN conjunct2, THEN conjunct1])
  have f: "s' = foldl (revalidate_attribute E) s1 (attributes s)"
    by (rule l [THEN conjunct2, THEN conjunct2, THEN conjunct2])
  have "revalidated ev = attributes s"
    using r by (simp add: ev revalidated_append)
  moreover have "validationErrors s' = expected_collection E s1 (attributes s)"
    by (subst f) (simp add: expected_collection_def)
  ultimately show ?thesis
    using b unfolding s1_def by (simp add: isValid_def)
qed

theorem validate_returns_isValid_witness:
  "validate example_ember example_obj = Inr (False, example_validated, example_validate_events) \<and>
   False = (errors_length (validationErrors example_validated) = 0) \<and>
   False = isValid example_validated \<and>
   revalidated example_validate_events = attributes example_obj \<and>
   validationErrors example_validated =
     expected_collection example_ember
       (example_obj\<lparr>u_didValidateAllOnce := True, validationErrors := []\<rparr>)
       (attributes example_obj) \<and>
   validationErrors example_validated = [(''name'', [''can not be blank''])]"
proof -
  have v: "validationErrors example_validated = [(''name'', [''can not be blank''])]"
    by (simp add: example_validated_def)
  from validate_returns_isValid [OF example_validate] example_validate v show ?thesis
    by (elim conjE, intro conjI) assumption+
qed

text \<open>
  Claim C7. A second \<open>validate()\<close> directly after a first one that returned, with
  nothing changed in between, returns the same boolean and leaves the object, and so
  the Error Collection with its keys and message sequences in order, exactly as the
  first call left it.
\<close>

theorem validate_idempotent:
  assumes "validate E s = Inr (b, s', ev)"
  shows "validate E s' = Inr (b, s', ev)"
proof -
  define s1 where "s1 = s\<lparr>u_didValidateAllOnce := True, validationErrors := []\<rparr>"
  define vs where "vs = (case validations s of None \<Rightarrow> [] | Some vs \<Rightarrow> vs)"
  from validate_Inr [OF assms] obtain ops where
    loop: "validate_loop E vs (attributes s) s1 = Inr (s', ops)" and
    ev: "ev = PropertyWillChange ''validationErrors'' # ErrorsClear # ops @ [PropertyDidChange ''validationErrors'']" and
    b: "b = isValid s'"
    unfolding s1_def vs_def by blast
  have s': "s' = s1\<lparr>validationErrors := foldl apply_event (validationErrors s1) ops\<rparr>"
    by (rule validate_loop_Inr [OF loop, THEN conjunct1])
  have same: "s'\<lparr>u_didValidateAllOnce := True, validationErrors := []\<rparr> = s1"
    by (subst s') (simp add: s1_def)
  have attrs: "attributes s' = attributes s"
    by (subst s') (simp add: s1_def attributes_def)
  have vals: "(case validations s' of None \<Rightarrow> [] | Some vs \<Rightarrow> vs) = vs"
    by (subst s') (simp add: s1_def vs_def)
  show ?thesis
    by (simp add: validate_unfold [of E s'] same attrs vals loop ev b)
qed

theorem validate_idempotent_witness:
  "validate example_ember example_obj = Inr (False, example_validated, example_validate_events) \<and>
   validate example_ember example_validated = Inr (False, example_validated, example_validate_events)"
  using validate_idempotent [OF example_validate] example_validate by simp

text \<open>
  Claim C8. The events of a \<open>validate()\<close> pass that returns are one
  \<open>propertyWillChange\<close> of \<open>validationErrors\<close>, then the clear and the mutations
  that repopulate the collection, then one \<open>propertyDidChange\<close>: no notification
  occurs between the first and the last event, and the mutations inside the bracket
  account for the whole change of the Error Collection.
\<close>

theorem validate_single_notification_bracket:
  assumes "validate E s = Inr (b, s', ev)"
  shows "\<exists>ops. ev = PropertyWillChange ''validationErrors'' # ErrorsClear # ops @
                    [PropertyDidChange ''validationErrors''] \<and>
               list_all (\<lambda>x. \<not> is_notification x) ops \<and>
               validationErrors s' = foldl apply_event (validationErrors s) (ErrorsClear # ops)"
proof -
  define s1 where "s1 = s\<lparr>u_didValidateAllOnce := True, validationErrors := []\<rparr>"
  from validate_Inr [OF assms] obtain ops where
    loop: "validate_loop E (case validations s of None \<Rightarrow> [] | Some vs \<Rightarrow> vs) (attributes s) s1 =
      Inr (s', ops)" and
    ev: "ev = PropertyWillChange ''validationErrors'' # ErrorsClear # ops @ [PropertyDidChange ''validationErrors'']"
    unfolding s1_def by blast
  have s': "s' = s1\<lparr>validationErrors := foldl apply_event (validationErrors s1) ops\<rparr>"
    by (rule validate_loop_Inr [OF loop, THEN conjunct1])
  have n: "list_all (\<lambda>x. \<not> is_notification x) ops"
    by (rule validate_loop_Inr [OF loop, THEN conjunct2, THEN conjunct1])
  have "validationErrors s' = foldl apply_event (validationErrors s) (ErrorsClear # ops)"
    by (subst s') (simp add: s1_def errors_clear_def)
  with ev n show ?thesis by (intro exI [of _ ops] conjI)
qed

theorem validate_single_notification_bracket_witness:
  "validate example_ember example_obj = Inr (False, example_validated, example_validate_events) \<and>
   (\<exists>ops. example_validate_events =
            PropertyWillChange ''validationErrors'' # ErrorsClear # ops @
              [PropertyDidChange ''validationErrors''] \<and>
          list_all (\<lambda>x. \<not> is_notification x) ops \<and>
          validationErrors example_validated =
            foldl apply_event (validationErrors example_obj) (ErrorsClear # ops))"
  using validate_single_notification_bracket [OF example_validate] example_validate by simp

section \<open>The wiring step\<close>

lemma wire_value_change_cases:
  "wire_value_change s p =
     (if validateOnValueChange s \<and> \<not> truthy (props s (''_observer'' @ p @ ''_value_change''))
      then s\<lparr>observers := observers s @ [(p, ''_onValueChangeValidateAttribute'')],
             props := (props s)(''_observer'' @ p @ ''_value_change'' := JObj)\<rparr>
      else s)"
  by (simp add: wire_value_change_def addObserver_def Let_def)

lemma wire_focus_out_cases:
  "wire_focus_out s p =
     (if validateOnFocusOut s \<and> \<not> truthy (props s (''_observer'' @ p @ ''_focus_out''))
      then s\<lparr>observers := observers s @ [(p @ ''shouldValidate'', ''_onFocusOutValidateAttribute'')],
             props := (props s)(''_observer'' @ p @ ''_focus_out'' := JObj)\<rparr>
      else s)"
  by (simp add: wire_focus_out_def addObserver_def Let_def)

lemma wired_once_wire_value_change:
  assumes "wired_once s"
  shows "wired_once (wire_value_change s p)"
proof (cases "validateOnValueChange s \<and> \<not> truthy (props s (''_observer'' @ p @ ''_value_change''))")
  case False
  have "wire_value_change s p = s"
    unfolding wire_value_change_cases using False by (rule if_not_P)
  then show ?thesis using assms by simp
next
  case True
  then have zero: "value_change_observers s p = 0"
    using assms by (simp add: wired_once_def)
  define s' where "s' = s\<lparr>observers := observers s @ [(p, ''_onValueChangeValidateAttribute'')],
             props := (props s)(''_observer'' @ p @ ''_value_change'' := JObj)\<rparr>"
  have w: "wire_value_change s p = s'"
    using True by (simp add: wire_value_change_cases s'_def)
  have vc: "value_change_observers s' q = (if q = p then 1 else value_change_observers s q)" for q
    using zero by (simp add: s'_def value_change_observers_def)
  have fo: "focus_out_observers s' q = focus_out_observers s q" for q
    by (simp add: s'_def focus_out_observers_def)
  have pr: "props s' k = (if k = ''_observer'' @ p @ ''_value_change'' then JObj else props s k)" for k
    by (simp add: s'_def)
  have "wired_once s'"
    unfolding wired_once_def
  proof (intro allI conjI impI)
    fix q
    show "value_change_observers s' q \<le> 1"
      using assms by (simp add: vc wired_once_def)
    show "focus_out_observers s' q \<le> 1"
      using assms by (simp add: fo wired_once_def)
    show "value_change_observers s' q = 0"
      if "\<not> truthy (props s' (''_observer'' @ q @ ''_value_change''))"
      using that assms by (simp add: vc pr wired_once_def split: if_splits)
    show "focus_out_observers s' q = 0"
      if "\<not> truthy (props s' (''_observer'' @ q @ ''_focus_out''))"
      using that assms by (simp add: fo pr wired_once_def split: if_splits)
  qed
  then show ?thesis by (simp add: w)
qed

lemma wired_once_wire_focus_out:
  assumes "wired_once s"
  shows "wired_once (wire_focus_out s p)"
proof (cases "validateOnFocusOut s \<and> \<not> truthy (props s (''_observer'' @ p @ ''_focus_out''))")
  case False
  have "wire_focus_out s p = s"
    unfolding wire_focus_out_cases using False by (rule if_not_P)
  then show ?thesis using assms by simp
next
  case True
  then have zero: "focus_out_observers s p = 0"
    using assms by (simp add: wired_once_def)
  define s' where "s' = s\<lparr>observers := observers s @ [(p @ ''shouldValidate'', ''_onFocusOutValidateAttribute'')],
             props := (props s)(''_observer'' @ p @ ''_focus_out'' := JObj)\<rparr>"
  have w: "wire_focus_out s p = s'"
    using True by (simp add: wire_focus_out_cases s'_def)
  have fo: "focus_out_observers s' q = (if q = p then 1 else focus_out_observers s q)" for q
    using zero by (simp add: s'_def focus_out_observers_def)
  have vc: "value_change_observers s' q = value_change_observers s q" for q
    by (simp add: s'_def value_change_observers_def)
  have pr: "props s' k = (if k = ''_observer'' @ p @ ''_focus_out'' then JObj else props s k)" for k
    by (simp add: s'_def)
  have "wired_once s'"
    unfolding wired_once_def
  proof (intro allI conjI impI)
    fix q
    show "value_change_observers s' q \<le> 1"
      using assms by (simp add: vc wired_once_def)
    show "focus_out_observers s' q \<le> 1"
      using assms by (simp add: fo wired_once_def)
    show "value_change_observers s' q = 0"
      if "\<not> truthy (props s' (''_observer'' @ q @ ''_value_change''))"
      using that assms by (simp add: vc pr wired_once_def split: if_splits)
    show "focus_out_observers s' q = 0"
      if "\<not> truthy (props s' (''_observer'' @ q @ ''_focus_out''))"
      using that assms by (simp add: fo pr wired_once_def split: if_splits)
  qed
  then show ?thesis by (simp add: w)
qed

lemma wired_once_foldl:
  "wired_once s \<Longrightarrow> wired_once (foldl wire_property s ps)"
  by (induction ps arbitrary: s)
    (simp_all add: wire_property_def wired_once_wire_value_change wired_once_wire_focus_out)

lemma wired_once_setup: "wired_once s \<Longrightarrow> wired_once (u_setupAutoValidateObserves s)"
  by (simp add: u_setupAutoValidateObserves_def wired_once_foldl)

lemma wired_once_set_validations: "wired_once s \<Longrightarrow> wired_once (set_validations s vs)"
proof -
  assume "wired_once s"
  then have "wired_once (s\<lparr>validations := vs\<rparr>)"
    by (simp add: wired_once_def value_change_observers_def focus_out_observers_def)
  then show ?thesis by (simp add: set_validations_def wired_once_setup)
qed

lemma wired_once_rewired:
  "wired_once s \<Longrightarrow> wired_once (foldl set_validations s vss)"
  by (induction vss arbitrary: s) (simp_all add: wired_once_set_validations)

lemma wired_once_fresh: "observers s = [] \<Longrightarrow> wired_once s"
  by (simp add: wired_once_def value_change_observers_def focus_out_observers_def)

text \<open>
  Claim C6. On an object created without observers, after \<open>init\<close> and any number of
  further runs of the wiring step, each caused by an assignment of \<open>validations\<close>,
  the registry holds at most one value-change observer and at most one focus-out
  observer for every attribute.
\<close>

theorem wiring_never_duplicates:
  assumes "observers s = []"
  shows "value_change_observers (foldl set_validations (init s) vss) p \<le> 1 \<and>
         focus_out_observers (foldl set_validations (init s) vss) p \<le> 1"
proof -
  have "wired_once (init s)"
    using assms by (simp add: init_def wired_once_setup wired_once_fresh)
  then have "wired_once (foldl set_validations (init s) vss)"
    by (rule wired_once_rewired)
  then show ?thesis by (simp add: wired_once_def)
qed

theorem wiring_never_duplicates_witness:
  "observers example_obj = [] \<and>
   value_change_observers
     (foldl set_validations (init example_obj)
        [validations example_obj, Some [(''age'', []), (''email'', [])]]) ''name'' \<le> 1 \<and>
   focus_out_observers
     (foldl set_validations (init example_obj)
        [validations example_obj, Some [(''age'', []), (''email'', [])]]) ''name'' \<le> 1"
  using wiring_never_duplicates
    [of example_obj "[validations example_obj, Some [(''age'', []), (''email'', [])]]" "''name''"]
  by (simp add: example_obj_def)



section \<open>Value changes\<close>

lemma slot_names_differ:
  "''_observer'' @ q @ ''_focus_out'' \<noteq> ''_observer'' @ p @ ''_value_change''"
proof
  assume "''_observer'' @ q @ ''_focus_out'' = ''_observer'' @ p @ ''_value_change''"
  then have "q @ ''_focus_out'' = p @ ''_value_change''" by simp
  then have "last (q @ ''_focus_out'') = last (p @ ''_value_change'')" by (rule arg_cong)
  then show False by simp
qed

lemma wire_value_change_flags:
  "validateOnValueChange (wire_value_change s p) = validateOnValueChange s"
  "validateOnFocusOut (wire_value_change s p) = validateOnFocusOut s"
  by (simp_all add: wire_value_change_cases)

lemma wire_focus_out_flags:
  "validateOnValueChange (wire_focus_out s p) = validateOnValueChange s"
  "validateOnFocusOut (wire_focus_out s p) = validateOnFocusOut s"
  by (simp_all add: wire_focus_out_cases)

lemma wire_property_flags:
  "validateOnValueChange (wire_property s p) = validateOnValueChange s"
  "validateOnFocusOut (wire_property s p) = validateOnFocusOut s"
  by (simp_all add: wire_property_def wire_value_change_flags wire_focus_out_flags)


















text \<open>
  The wiring step installs the value-change observer of \<open>p\<close> only when the property
  \<open>_observer<p>_value_change\<close> of the object is falsy. On \<open>slot_taken_obj\<close> that
  property of \<open>name\<close> is set at creation: no observer is registered, and a change of
  \<open>name\<close> after a full \<open>validate()\<close> triggers nothing.
\<close>

lemma example_wired_slot_taken:
  "observers (init slot_taken_obj) =
     [(''nameshouldValidate'', ''_onFocusOutValidateAttribute''),
      (''age'', ''_onValueChangeValidateAttribute''),
      (''ageshouldValidate'', ''_onFocusOutValidateAttribute'')]"
  by (simp add: init_def u_setupAutoValidateObserves_def attributes_def wire_property_def
      wire_value_change_cases wire_focus_out_cases slot_taken_obj_def example_obj_def)

lemma value_change_slot_taken:
  "change_property example_ember ''name'' (JStr ''Ada'')
     ((init slot_taken_obj)\<lparr>u_didValidateAllOnce := True\<rparr>) =
   Inr ((init slot_taken_obj)\<lparr>u_didValidateAllOnce := True,
          props := (props (init slot_taken_obj))(''name'' := JStr ''Ada'')\<rparr>, [])"
  by (simp add: change_property_def example_wired_slot_taken)





section \<open>The focus-out observer\<close>

lemma no_s_after_first:
  assumes "0 < n" and "n < 14"
  shows "''shouldValidate'' ! n \<noteq> CHR ''s''"
proof -
  have "tl ''shouldValidate'' ! (n - 1) \<in> set (tl ''shouldValidate'')"
    using assms by (intro nth_mem) simp
  moreover have "tl ''shouldValidate'' ! (n - 1) = ''shouldValidate'' ! n"
    using assms by (simp add: nth_tl)
  moreover have "CHR ''s'' \<notin> set (tl ''shouldValidate'')" by simp
  ultimately show ?thesis by metis
qed

lemma no_early_match:
  assumes "a \<noteq> []" and "\<not> (\<exists>u v. a = u @ ''shouldValidate'' @ v)"
  shows "take (length ''shouldValidate'') (a @ ''shouldValidate'') \<noteq> ''shouldValidate''"
proof
  have L: "length ''shouldValidate'' = 14" by simp
  assume "take (length ''shouldValidate'') (a @ ''shouldValidate'') = ''shouldValidate''"
  then have eq: "take 14 (a @ ''shouldValidate'') = ''shouldValidate''" unfolding L .
  show False
  proof (cases "14 \<le> length a")
    case True
    then have "take 14 a = ''shouldValidate''" using eq by simp
    then have "a = [] @ ''shouldValidate'' @ drop 14 a"
      by (metis append_Nil append_take_drop_id)
    then show False using assms(2) by blast
  next
    case False
    define n where "n = length a"
    have n: "0 < n" "n < 14" using assms(1) False by (simp_all add: n_def)
    have "(a @ ''shouldValidate'') ! n = ''shouldValidate'' ! n"
      using eq n by (metis nth_take)
    moreover have "(a @ ''shouldValidate'') ! n = CHR ''s''"
      by (simp add: n_def nth_append)
    ultimately show False using no_s_after_first [OF n] by simp
  qed
qed

lemma replace_first_no_match:
  "take (length pat) (c # cs) \<noteq> pat \<Longrightarrow>
   replace_first pat rep (c # cs) = c # replace_first pat rep cs"
  by simp

lemma focus_out_property_recovers:
  "\<not> (\<exists>u v. a = u @ ''shouldValidate'' @ v) \<Longrightarrow>
   focus_out_property (a @ ''shouldValidate'') = a"
proof (induction a)
  case Nil
  then show ?case by (simp add: focus_out_property_def)
next
  case (Cons c a)
  have "\<not> (\<exists>u v. a = u @ ''shouldValidate'' @ v)"
  proof
    assume "\<exists>u v. a = u @ ''shouldValidate'' @ v"
    then obtain u v where "a = u @ ''shouldValidate'' @ v" by blast
    then have "c # a = (c # u) @ ''shouldValidate'' @ v" by simp
    then show False using Cons.prems by blast
  qed
  then have ih: "replace_first ''shouldValidate'' [] (a @ ''shouldValidate'') = a"
    using Cons.IH by (simp add: focus_out_property_def)
  have "take (length ''shouldValidate'') ((c # a) @ ''shouldValidate'') \<noteq> ''shouldValidate''"
    by (rule no_early_match [OF _ Cons.prems]) simp
  then have nm: "take (length ''shouldValidate'') (c # (a @ ''shouldValidate'')) \<noteq> ''shouldValidate''"
    unfolding append_Cons .
  have "replace_first ''shouldValidate'' [] (c # (a @ ''shouldValidate'')) =
      c # replace_first ''shouldValidate'' [] (a @ ''shouldValidate'')"
    using nm by (rule replace_first_no_match)
  then show ?case unfolding focus_out_property_def append_Cons ih .
qed

text \<open>
  Claim C4. The observer removes the first occurrence of \<open>shouldValidate\<close> from the
  observed key, not the suffix. For the attribute \<open>shouldValidateName\<close> the observed
  key is \<open>shouldValidateNameshouldValidate\<close>, the recovered name is
  \<open>NameshouldValidate\<close>, and that is the attribute the observer re-validates when
  the flag becomes true. (The lemma before shows that the name is recovered whenever it
  does not contain \<open>shouldValidate\<close>.)
\<close>

theorem focus_out_strips_first_occurrence:
  "focus_out_property (''shouldValidateName'' @ ''shouldValidate'') = ''NameshouldValidate'' \<and>
   triggered_events
     (change_property example_ember (''shouldValidateName'' @ ''shouldValidate'') (JBool True)
        (init prefixed_obj)) =
     [PropertyWillChange ''validationErrors'', ErrorsRemove ''NameshouldValidate'',
      PropertyDidChange ''validationErrors'']"
  by (simp add: triggered_events_def change_property_def call_observer_def
      u_onFocusOutValidateAttribute_def init_def u_setupAutoValidateObserves_def
      wire_property_def wire_value_change_cases wire_focus_out_cases
      focus_out_property_def validateProperty_def u_validateProperty_def Let_def
      object_get_def errors_path_length_def attributeValidations_def attributes_def
      errors_attribute_length_def errors_remove_def
      prefixed_obj_def example_ember_def)



section \<open>Touch tracking\<close>

lemma split_path_last_segment:
  "CHR ''.'' \<notin> set key \<Longrightarrow> split_path (objectPath @ ''.'' @ key) = (Some objectPath, key)"
proof -
  assume k: "CHR ''.'' \<notin> set key"
  have "takeWhile (\<lambda>c. c \<noteq> CHR ''.'') (rev key @ CHR ''.'' # rev objectPath) = rev key"
    using k by (subst takeWhile_append2) auto
  then show ?thesis by (simp add: split_path_def Let_def)
qed

lemma focus_out_slot_registered_wire_property:
  assumes "focus_out_slot_registered p s"
  shows "focus_out_slot_registered p (wire_property s q)"
proof -
  have 1: "focus_out_slot_registered p (wire_value_change s q)"
    using assms slot_names_differ [of p q]
    by (auto simp: focus_out_slot_registered_def wire_value_change_cases)
  have "focus_out_slot_registered p (wire_focus_out s' q)"
    if "focus_out_slot_registered p s'" for s' :: "'a obj"
    using that by (auto simp: focus_out_slot_registered_def wire_focus_out_cases)
  from this [OF 1] show ?thesis by (simp add: wire_property_def)
qed

lemma focus_out_slot_truthy_wire_property:
  "truthy (props s (''_observer'' @ p @ ''_focus_out'')) \<Longrightarrow>
   truthy (props (wire_property s q) (''_observer'' @ p @ ''_focus_out''))"
  by (auto simp: wire_property_def wire_value_change_cases wire_focus_out_cases)

lemma focus_out_slot_truthy_after_wiring:
  "validateOnFocusOut s \<Longrightarrow>
   truthy (props (wire_property s p) (''_observer'' @ p @ ''_focus_out''))"
  by (simp add: wire_property_def wire_value_change_cases wire_focus_out_cases)

lemma focus_out_wired_foldl:
  "validateOnFocusOut s \<Longrightarrow> focus_out_slot_registered p s \<Longrightarrow>
   p \<in> set ps \<or> truthy (props s (''_observer'' @ p @ ''_focus_out'')) \<Longrightarrow>
   focus_out_slot_registered p (foldl wire_property s ps) \<and>
   truthy (props (foldl wire_property s ps) (''_observer'' @ p @ ''_focus_out''))"
proof (induction ps arbitrary: s)
  case Nil
  then show ?case by simp
next
  case (Cons q ps)
  have f: "validateOnFocusOut (wire_property s q)"
    using Cons.prems(1) by (simp add: wire_property_flags)
  have r: "focus_out_slot_registered p (wire_property s q)"
    using Cons.prems(2) by (rule focus_out_slot_registered_wire_property)
  have t: "p \<in> set ps \<or> truthy (props (wire_property s q) (''_observer'' @ p @ ''_focus_out''))"
  proof (cases "p = q")
    case True
    then show ?thesis using focus_out_slot_truthy_after_wiring [OF Cons.prems(1), of q] by simp
  next
    case False
    then show ?thesis
      using Cons.prems(3) focus_out_slot_truthy_wire_property [of s p q] by auto
  qed
  from Cons.IH [OF f r t] show ?case by simp
qed

lemma init_registers_focus_out:
  assumes "\<not> truthy (props s (''_observer'' @ p @ ''_focus_out''))"
    and "validateOnFocusOut s" and "p \<in> set (attributes s)"
  shows "(p @ ''shouldValidate'', ''_onFocusOutValidateAttribute'') \<in> set (observers (init s))"
proof -
  have "focus_out_slot_registered p s"
    using assms(1) by (simp add: focus_out_slot_registered_def)
  from focus_out_wired_foldl [OF assms(2) this, of "attributes s"] assms(3)
  show ?thesis
    by (simp add: init_def u_setupAutoValidateObserves_def focus_out_slot_registered_def)
qed

lemma binding_from_update:
  "binding_from (w\<lparr>u_didFocusIn := x\<rparr>) = binding_from w"
  "binding_from (w\<lparr>u_didFocusOut := x\<rparr>) = binding_from w"
  "binding_from (w\<lparr>reachable := r\<rparr>) = binding_from w"
  by (simp_all add: binding_from_def split: option.split)

lemma u_setupShouldValidate_both:
  assumes "binding_from w = Some (objectPath @ ''.'' @ attribute)"
    and "CHR ''.'' \<notin> set attribute"
    and "reachable w objectPath = Some store"
    and "u_didFocusIn w" and "u_didFocusOut w"
  shows "u_setupShouldValidate w =
           Inr (w\<lparr>reachable := (reachable w)(objectPath \<mapsto>
                  store(attribute @ ''shouldValidate'' := JBool True))\<rparr>)"
proof -
  have "CHR ''.'' \<notin> set (attribute @ ''shouldValidate'')" using assms(2) by simp
  then have sp: "split_path (objectPath @ ''.'' @ attribute @ ''shouldValidate'') =
      (Some objectPath, attribute @ ''shouldValidate'')"
    by (rule split_path_last_segment)
  have b: "(case valueBinding w of Some b \<Rightarrow> Some b | None \<Rightarrow> checkedBinding w) =
      Some (objectPath @ ''.'' @ attribute)"
    using assms(1) by (simp add: binding_from_def)
  have "u_setupShouldValidate w =
      widget_set w ((objectPath @ ''.'' @ attribute) @ ''shouldValidate'') (JBool True)"
    unfolding u_setupShouldValidate_def b Let_def using assms(4,5) by simp
  also have "(objectPath @ ''.'' @ attribute) @ ''shouldValidate'' =
      objectPath @ ''.'' @ attribute @ ''shouldValidate''" by simp
  finally show ?thesis
    unfolding widget_set_def sp using assms(3) by simp
qed

text \<open>
  Two cases beside the claim: a binding whose path has no dot reads from the widget
  itself, and the flag is set there; a widget without a binding gets the property
  \<open>undefinedshouldValidate\<close>.
\<close>

lemma split_path_no_dot:
  "CHR ''.'' \<notin> set key \<Longrightarrow> split_path key = (None, key)"
proof -
  assume k: "CHR ''.'' \<notin> set key"
  then have tw: "takeWhile (\<lambda>c. c \<noteq> CHR ''.'') (rev key) = rev key"
    by (intro takeWhile_eq_all_conv [THEN iffD2]) auto
  show ?thesis unfolding split_path_def Let_def tw using k by simp
qed

lemma u_setupShouldValidate_own_property:
  assumes "binding_from w = Some attribute" and "CHR ''.'' \<notin> set attribute"
    and "u_didFocusIn w" and "u_didFocusOut w"
  shows "u_setupShouldValidate w =
           Inr (w\<lparr>own := (own w)(attribute @ ''shouldValidate'' := JBool True)\<rparr>)"
proof -
  have "CHR ''.'' \<notin> set (attribute @ ''shouldValidate'')" using assms(2) by simp
  then have sp: "split_path (attribute @ ''shouldValidate'') = (None, attribute @ ''shouldValidate'')"
    by (rule split_path_no_dot)
  have b: "(case valueBinding w of Some b \<Rightarrow> Some b | None \<Rightarrow> checkedBinding w) = Some attribute"
    using assms(1) by (simp add: binding_from_def)
  have "u_setupShouldValidate w = widget_set w (attribute @ ''shouldValidate'') (JBool True)"
    unfolding u_setupShouldValidate_def b Let_def using assms(3,4) by simp
  then show ?thesis unfolding widget_set_def sp by simp
qed

lemma u_setupShouldValidate_unbound:
  assumes "binding_from w = None" and "u_didFocusIn w" and "u_didFocusOut w"
  shows "u_setupShouldValidate w =
           Inr (w\<lparr>own := (own w)(''undefinedshouldValidate'' := JBool True)\<rparr>)"
proof -
  have sp: "split_path ''undefinedshouldValidate'' = (None, ''undefinedshouldValidate'')"
    by (rule split_path_no_dot) simp
  have b: "(case valueBinding w of Some b \<Rightarrow> Some b | None \<Rightarrow> checkedBinding w) = None"
    using assms(1) by (simp add: binding_from_def)
  have "u_setupShouldValidate w = widget_set w ''undefinedshouldValidate'' (JBool True)"
    unfolding u_setupShouldValidate_def b Let_def using assms(2,3) by simp
  then show ?thesis unfolding widget_set_def sp by simp
qed

lemma focus_flags_swap:
  "w\<lparr>u_didFocusOut := x, u_didFocusIn := y\<rparr> = w\<lparr>u_didFocusIn := y, u_didFocusOut := x\<rparr>"
  by (cases w) simp

lemma focus_events_without_change:
  "u_didFocusIn w \<Longrightarrow> focusIn w = Inr w"
  "u_didFocusOut w \<Longrightarrow> focusOut w = Inr w"
  by (simp_all add: focusIn_def focusOut_def)

text \<open>
  Claim C3. Take a widget whose binding reads from \<open>objectPath.attribute\<close>, where
  \<open>objectPath\<close> resolves to an object. With both focus flags true
  \<open>_setupShouldValidate\<close> sets \<open>attribute + 'shouldValidate'\<close> to \<open>true\<close> on that
  object. It runs with both flags true at the event that makes the second flag true: a
  focus-out after a focus-in, a focus-in after a focus-out, and so in either order from
  a widget that has neither flag. The key is the one on which the engine's wiring step
  registers the focus-out observer of \<open>attribute\<close>.
\<close>

theorem setupShouldValidate_sets_observed_flag:
  assumes "binding_from w = Some (objectPath @ ''.'' @ attribute)"
    and "CHR ''.'' \<notin> set attribute"
    and "reachable w objectPath = Some store"
    and "\<not> truthy (props s (''_observer'' @ attribute @ ''_focus_out''))"
    and "validateOnFocusOut s"
    and "attribute \<in> set (attributes s)"
  shows "u_setupShouldValidate (w\<lparr>u_didFocusIn := True, u_didFocusOut := True\<rparr>) =
           Inr (w\<lparr>u_didFocusIn := True, u_didFocusOut := True,
                  reachable := (reachable w)(objectPath \<mapsto>
                     store(attribute @ ''shouldValidate'' := JBool True))\<rparr>) \<and>
         focusOut (w\<lparr>u_didFocusIn := True, u_didFocusOut := False\<rparr>) =
           Inr (w\<lparr>u_didFocusIn := True, u_didFocusOut := True,
                  reachable := (reachable w)(objectPath \<mapsto>
                     store(attribute @ ''shouldValidate'' := JBool True))\<rparr>) \<and>
         focusIn (w\<lparr>u_didFocusIn := False, u_didFocusOut := True\<rparr>) =
           Inr (w\<lparr>u_didFocusIn := True, u_didFocusOut := True,
                  reachable := (reachable w)(objectPath \<mapsto>
                     store(attribute @ ''shouldValidate'' := JBool True))\<rparr>) \<and>
         then_focusOut (focusIn (w\<lparr>u_didFocusIn := False, u_didFocusOut := False\<rparr>)) =
           Inr (w\<lparr>u_didFocusIn := True, u_didFocusOut := True,
                  reachable := (reachable w)(objectPath \<mapsto>
                     store(attribute @ ''shouldValidate'' := JBool True))\<rparr>) \<and>
         then_focusIn (focusOut (w\<lparr>u_didFocusIn := False, u_didFocusOut := False\<rparr>)) =
           Inr (w\<lparr>u_didFocusIn := True, u_didFocusOut := True,
                  reachable := (reachable w)(objectPath \<mapsto>
                     store(attribute @ ''shouldValidate'' := JBool True))\<rparr>) \<and>
         (attribute @ ''shouldValidate'', ''_onFocusOutValidateAttribute'') \<in> set (observers (init s))"
proof -
  define F where "F = w\<lparr>u_didFocusIn := True, u_didFocusOut := True,
                  reachable := (reachable w)(objectPath \<mapsto>
                     store(attribute @ ''shouldValidate'' := JBool True))\<rparr>"
  have both: "u_setupShouldValidate (w\<lparr>u_didFocusIn := True, u_didFocusOut := True\<rparr>) = Inr F"
  proof -
    have "u_setupShouldValidate (w\<lparr>u_didFocusIn := True, u_didFocusOut := True\<rparr>) =
        Inr (w\<lparr>u_didFocusIn := True, u_didFocusOut := True\<rparr>
               \<lparr>reachable := (reachable (w\<lparr>u_didFocusIn := True, u_didFocusOut := True\<rparr>))
                  (objectPath \<mapsto> store(attribute @ ''shouldValidate'' := JBool True))\<rparr>)"
      by (rule u_setupShouldValidate_both)
        (use assms(1-3) in \<open>simp_all add: binding_from_update\<close>)
    then show ?thesis by (simp add: F_def)
  qed
  have neither: "u_setupShouldValidate (w\<lparr>u_didFocusIn := i, u_didFocusOut := out\<rparr>) =
      Inr (w\<lparr>u_didFocusIn := i, u_didFocusOut := out\<rparr>)" if "\<not> i \<or> \<not> out" for i out
    using that by (auto simp: u_setupShouldValidate_def)
  have out2: "focusOut (w\<lparr>u_didFocusIn := True, u_didFocusOut := False\<rparr>) = Inr F"
    using both by (simp add: focusOut_def)
  have in2: "focusIn (w\<lparr>u_didFocusIn := False, u_didFocusOut := True\<rparr>) = Inr F"
    using both by (simp add: focusIn_def focus_flags_swap)
  have in1: "focusIn (w\<lparr>u_didFocusIn := False, u_didFocusOut := False\<rparr>) =
      Inr (w\<lparr>u_didFocusIn := True, u_didFocusOut := False\<rparr>)"
    using neither [of True False] by (simp add: focusIn_def focus_flags_swap)
  have out1: "focusOut (w\<lparr>u_didFocusIn := False, u_didFocusOut := False\<rparr>) =
      Inr (w\<lparr>u_didFocusIn := False, u_didFocusOut := True\<rparr>)"
    using neither [of False True] by (simp add: focusOut_def focus_flags_swap)
  have seq1: "then_focusOut (focusIn (w\<lparr>u_didFocusIn := False, u_didFocusOut := False\<rparr>)) = Inr F"
    by (simp add: then_focusOut_def in1 out2)
  have seq2: "then_focusIn (focusOut (w\<lparr>u_didFocusIn := False, u_didFocusOut := False\<rparr>)) = Inr F"
    by (simp add: then_focusIn_def out1 in2)
  have reg: "(attribute @ ''shouldValidate'', ''_onFocusOutValidateAttribute'') \<in> set (observers (init s))"
    using assms(4-6) by (rule init_registers_focus_out)
  from both out2 in2 seq1 seq2 reg show ?thesis
    unfolding F_def by (intro conjI)
qed

theorem setupShouldValidate_sets_observed_flag_witness:
  "binding_from example_widget = Some (''content'' @ ''.'' @ ''name'') \<and>
   CHR ''.'' \<notin> set ''name'' \<and>
   reachable example_widget ''content'' = Some (\<lambda>k. JUndefined) \<and>
   \<not> truthy (props example_obj (''_observer'' @ ''name'' @ ''_focus_out'')) \<and>
   validateOnFocusOut example_obj \<and>
   ''name'' \<in> set (attributes example_obj) \<and>
   then_focusOut (focusIn example_widget) =
     Inr (example_widget\<lparr>u_didFocusIn := True, u_didFocusOut := True,
            reachable := (reachable example_widget)(''content'' \<mapsto>
              (\<lambda>k. JUndefined)(''name'' @ ''shouldValidate'' := JBool True))\<rparr>) \<and>
   then_focusIn (focusOut example_widget) =
     Inr (example_widget\<lparr>u_didFocusIn := True, u_didFocusOut := True,
            reachable := (reachable example_widget)(''content'' \<mapsto>
              (\<lambda>k. JUndefined)(''name'' @ ''shouldValidate'' := JBool True))\<rparr>) \<and>
   (''name'' @ ''shouldValidate'', ''_onFocusOutValidateAttribute'') \<in> set (observers (init example_obj))"
proof -
  have w: "example_widget\<lparr>u_didFocusIn := False, u_didFocusOut := False\<rparr> = example_widget"
    by (simp add: example_widget_def)
  have h: "binding_from example_widget = Some (''content'' @ ''.'' @ ''name'')"
    "CHR ''.'' \<notin> set ''name''"
    "reachable example_widget ''content'' = Some (\<lambda>k. JUndefined)"
    "\<not> truthy (props example_obj (''_observer'' @ ''name'' @ ''_focus_out''))"
    "validateOnFocusOut example_obj"
    "''name'' \<in> set (attributes example_obj)"
    by (simp_all add: example_widget_def binding_from_def example_obj_def attributes_def)
  from setupShouldValidate_sets_observed_flag [OF h] h show ?thesis
    unfolding w by (elim conjE, intro conjI) assumption+
qed

end
